theory Spec2Isabelle
  imports Complex_Main "HOL-Library.Log_Nat"
begin

section \<open>Primality testing: modular exponentiation, Fermat and Miller-Rabin\<close>

text \<open>
  A shallow embedding of \<^verbatim>\<open>fermat.py\<close>. The program is Python 3: integers are
  unbounded (\<^typ>\<open>int\<close>), \<^verbatim>\<open>//\<close> and \<^verbatim>\<open>%\<close> are floor division and its remainder
  (HOL's \<open>div\<close> and \<open>mod\<close> on \<^typ>\<open>int\<close>, whose remainder takes the sign of the divisor
  as Python's does), and \<^verbatim>\<open>/\<close> is true division, whose result is a double.
  Exceptions are values of the type \<open>error\<close>.

  The interpreter bounds the depth of the call stack. Every function of the program
  that calls another takes a parameter \<open>fr\<close>: the number of nested calls the
  interpreter still allows while the function's body runs (the recursion limit less
  the depth of the stack at that point). A call made when \<open>fr = 0\<close> raises
  \<^verbatim>\<open>RecursionError\<close>; otherwise the callee's body runs with \<open>fr - 1\<close>. The stack that
  the library routine \<^verbatim>\<open>random.randint\<close> uses of its own, and memory, are not part of
  the model.
\<close>

subsection \<open>Data\<close>

datatype error = ValueError | ZeroDivisionError | RecursionError | OverflowError

text \<open>The two strings the tests return, \<^verbatim>\<open>"prime"\<close> and \<^verbatim>\<open>"composite"\<close>.\<close>

datatype verdict = Prime | Composite

subsection \<open>Modular exponentiation\<close>

text \<open>
  \<^verbatim>\<open>
  def mod_exp(x, y, N):
      if y == 0:
          return 1
      z = mod_exp(x, y // 2, N)
      if y % 2 == 0:
          return (z ** 2) % N
      else:
          return (x * (z ** 2)) % N
  \<close>
  The function calls itself once for every bit of \<open>y\<close>, each call one frame deeper,
  so the recursive call is where the stack can run out. For \<open>y < 0\<close> the recursion never
  reaches its base case (\<open>-1 // 2 = -1\<close>) and ends that way whatever \<open>fr\<close> is. A remainder
  by \<open>N = 0\<close> raises \<^verbatim>\<open>ZeroDivisionError\<close>.
\<close>

function mod_exp :: "nat \<Rightarrow> int \<Rightarrow> int \<Rightarrow> int \<Rightarrow> error + int" where
  "mod_exp fr x y N =
     (if y = 0 then Inr 1
      else if fr = 0 then Inl RecursionError
      else case mod_exp (fr - 1) x (y div 2) N of
             Inl e \<Rightarrow> Inl e
           | Inr z \<Rightarrow>
               if N = 0 then Inl ZeroDivisionError
               else if y mod 2 = 0 then Inr ((z ^ 2) mod N)
               else Inr ((x * z ^ 2) mod N))"
  by pat_completeness auto
termination
  by (relation "measure (\<lambda>(fr, x, y, N). fr)") auto

declare mod_exp.simps [simp del]

subsection \<open>Doubles\<close>

text \<open>
  True division (\<^verbatim>\<open>/\<close>) of two Python integers yields a double, and so does every
  operation with a double operand. A finite double is represented by the real number
  it denotes, and each operation rounds its exact result to the nearest double, ties to
  the even significand (IEEE 754 binary64: 53 significant bits, least normal exponent
  \<open>-1022\<close>, subnormals spaced \<open>2 ^ -1074\<close> apart).

  \<open>binade x\<close> is the exponent \<open>e\<close> with \<open>2 ^ e \<le> \<bar>x\<bar> < 2 ^ (e + 1)\<close>, for \<open>x \<noteq> 0\<close>.
\<close>

definition binade :: "real \<Rightarrow> int" where
  "binade x =
     (if 1 \<le> \<bar>x\<bar> then bitlen \<lfloor>\<bar>x\<bar>\<rfloor> - 1 else - bitlen (\<lceil>1 / \<bar>x\<bar>\<rceil> - 1))"

definition round_half_even :: "real \<Rightarrow> int" where
  "round_half_even m =
     (let f = \<lfloor>m\<rfloor>; r = m - of_int f
      in if r < 1 / 2 then f else if 1 / 2 < r then f + 1 else if even f then f else f + 1)"

definition double_round :: "real \<Rightarrow> real" where
  "double_round x =
     (if x = 0 then 0
      else let u = 2 powi (max (binade x) (- 1022) - 52)
           in of_int (round_half_even (x / u)) * u)"

text \<open>
  \<^verbatim>\<open>a / b\<close> on integers: the correctly rounded quotient, \<^verbatim>\<open>ZeroDivisionError\<close> for
  \<open>b = 0\<close>, and \<^verbatim>\<open>OverflowError\<close> when the rounded quotient is beyond the largest double.
\<close>

definition int_truediv :: "int \<Rightarrow> int \<Rightarrow> error + real" where
  "int_truediv a b =
     (if b = 0 then Inl ZeroDivisionError
      else let q = double_round (of_int a / of_int b)
           in if 2 ^ 1024 \<le> \<bar>q\<bar> then Inl OverflowError else Inr q)"

text \<open>\<^verbatim>\<open>a / b\<close> and \<^verbatim>\<open>a - b\<close> on doubles, at the operands this program gives them
  (a quotient by \<open>2\<close> and a difference from \<open>1\<close>, neither of which can overflow).\<close>

definition float_truediv :: "real \<Rightarrow> real \<Rightarrow> error + real" where
  "float_truediv a b = (if b = 0 then Inl ZeroDivisionError else Inr (double_round (a / b)))"

definition float_sub :: "real \<Rightarrow> real \<Rightarrow> real" where
  "float_sub a b = double_round (a - b)"

text \<open>
  A Python number as this program holds one in the variable \<^verbatim>\<open>exponent\<close>: an integer,
  or a double once \<^verbatim>\<open>exponent / 2\<close> has been computed.
\<close>

datatype pynum = PyInt int | PyFloat real

text \<open>\<^verbatim>\<open>exponent % 2 == 0\<close> and \<^verbatim>\<open>exponent / 2\<close> (the integer \<open>2\<close> is converted to
  the double \<open>2.0\<close> when the left operand is a double).\<close>

fun is_even_num :: "pynum \<Rightarrow> bool" where
  "is_even_num (PyInt n) = (n mod 2 = 0)"
| "is_even_num (PyFloat v) = (v - 2 * of_int \<lfloor>v / 2\<rfloor> = 0)"

fun halve_num :: "pynum \<Rightarrow> error + pynum" where
  "halve_num (PyInt n) = map_sum id PyFloat (int_truediv n 2)"
| "halve_num (PyFloat v) = map_sum id PyFloat (float_truediv v 2)"

text \<open>
  \<open>mod_exp\<close> is dynamically typed, and Miller-Rabin's descent calls it with a double
  \<open>y\<close>. The body is the same; \<^verbatim>\<open>y // 2\<close> is then the floor of \<open>y / 2\<close> as a double and
  \<^verbatim>\<open>y % 2\<close> the remainder \<open>y - 2 * \<lfloor>y / 2\<rfloor>\<close>, both exact. The base, the modulus and the
  result stay integers.
\<close>

function mod_exp_float :: "nat \<Rightarrow> int \<Rightarrow> real \<Rightarrow> int \<Rightarrow> error + int" where
  "mod_exp_float fr x y N =
     (if y = 0 then Inr 1
      else if fr = 0 then Inl RecursionError
      else case mod_exp_float (fr - 1) x (of_int \<lfloor>y / 2\<rfloor>) N of
             Inl e \<Rightarrow> Inl e
           | Inr z \<Rightarrow>
               if N = 0 then Inl ZeroDivisionError
               else if y - 2 * of_int \<lfloor>y / 2\<rfloor> = 0 then Inr ((z ^ 2) mod N)
               else Inr ((x * z ^ 2) mod N))"
  by pat_completeness auto
termination
  by (relation "measure (\<lambda>(fr, x, y, N). fr)") auto

declare mod_exp_float.simps [simp del]

fun mod_exp_num :: "nat \<Rightarrow> int \<Rightarrow> pynum \<Rightarrow> int \<Rightarrow> error + int" where
  "mod_exp_num fr x (PyInt y) N = mod_exp fr x y N"
| "mod_exp_num fr x (PyFloat y) N = mod_exp_float fr x y N"

text \<open>A call of \<open>mod_exp\<close> from the body of a test that has \<open>fr\<close> frames left.\<close>

definition call_mod_exp :: "nat \<Rightarrow> int \<Rightarrow> pynum \<Rightarrow> int \<Rightarrow> error + int" where
  "call_mod_exp fr x y N =
     (if fr = 0 then Inl RecursionError else mod_exp_num (fr - 1) x y N)"

subsection \<open>The probability estimates\<close>

text \<open>
  \<^verbatim>\<open>
  def fprobability(k):  return 1 - (1 / (2 ** k))
  def mprobability(k):  return 1 - (1 / (4 ** k))
  \<close>
  The trial count \<open>k\<close> is a natural number here; \<open>2 ** k\<close> is then an exact integer, the
  quotient is a double, and so is the difference.
\<close>

definition fprobability :: "nat \<Rightarrow> error + real" where
  "fprobability k =
     (case int_truediv 1 (2 ^ k) of Inl e \<Rightarrow> Inl e | Inr q \<Rightarrow> Inr (float_sub 1 q))"

definition mprobability :: "nat \<Rightarrow> error + real" where
  "mprobability k =
     (case int_truediv 1 (4 ^ k) of Inl e \<Rightarrow> Inl e | Inr q \<Rightarrow> Inr (float_sub 1 q))"

subsection \<open>The random source\<close>

text \<open>
  The source of randomness is a parameter: \<open>rnd i\<close> is the \<open>i\<close>-th raw draw, and the
  state threaded through the tests is the number of draws made so far.
  \<^verbatim>\<open>random.randint(lo, hi)\<close> raises \<^verbatim>\<open>ValueError\<close> on an empty range and otherwise returns
  a member of \<open>[lo, hi]\<close>, here the raw draw reduced into that interval.
\<close>

type_synonym rng = "nat \<Rightarrow> int"

definition randint :: "rng \<Rightarrow> nat \<Rightarrow> int \<Rightarrow> int \<Rightarrow> error + int \<times> nat" where
  "randint rnd s lo hi =
     (if hi < lo then Inl ValueError else Inr (lo + rnd s mod (hi - lo + 1), Suc s))"

subsection \<open>Fermat's test\<close>

text \<open>
  \<^verbatim>\<open>
  def run_fermat(N,k):
      for i in range(1, k):
          a = random.randint(1, N - 1)
          if mod_exp(a, N - 1, N) != 1:
              return "composite"
      return "prime"
  \<close>
  The loop runs over \<^verbatim>\<open>range(1, k)\<close>, the integers \<open>1, \<dots>, k - 1\<close>. The result carries the
  draw counter after the run.
\<close>

fun fermat_loop ::
  "nat \<Rightarrow> rng \<Rightarrow> nat \<Rightarrow> int \<Rightarrow> int list \<Rightarrow> error + verdict \<times> nat" where
  "fermat_loop fr rnd s N [] = Inr (Prime, s)"
| "fermat_loop fr rnd s N (i # rest) =
     (case randint rnd s 1 (N - 1) of
        Inl e \<Rightarrow> Inl e
      | Inr (a, s') \<Rightarrow>
          (case call_mod_exp fr a (PyInt (N - 1)) N of
             Inl e \<Rightarrow> Inl e
           | Inr r \<Rightarrow>
               if r \<noteq> 1 then Inr (Composite, s') else fermat_loop fr rnd s' N rest))"

definition run_fermat ::
  "nat \<Rightarrow> rng \<Rightarrow> nat \<Rightarrow> int \<Rightarrow> int \<Rightarrow> error + verdict \<times> nat" where
  "run_fermat fr rnd s N k = fermat_loop fr rnd s N [1..k - 1]"

subsection \<open>The Miller-Rabin test\<close>

text \<open>
  \<^verbatim>\<open>
  def run_miller_rabin(N,k):
      for i in range(1, k):
          a = random.randint(1, N - 1)
          if mod_exp(a, N - 1, N) == 1:
              exponent = N - 1
              z = 1
              while exponent % 2 == 0 and z == 1:
                  exponent = exponent / 2
                  z = mod_exp(a, exponent, N)
              if z % N != N - 1 and z % N != 1:
                  return "composite"
          else:
              return "composite"
      return "prime"
  \<close>
  The \<^verbatim>\<open>while\<close> loop is \<open>descent\<close>; a run of it that never ends is the value \<open>None\<close>.
\<close>

partial_function (option) descent ::
  "nat \<Rightarrow> int \<Rightarrow> int \<Rightarrow> pynum \<Rightarrow> int \<Rightarrow> (error + pynum \<times> int) option" where
  "descent fr a N exponent z =
     (if is_even_num exponent \<and> z = 1 then
        (case halve_num exponent of
           Inl e \<Rightarrow> Some (Inl e)
         | Inr exponent' \<Rightarrow>
             (case call_mod_exp fr a exponent' N of
                Inl e \<Rightarrow> Some (Inl e)
              | Inr z' \<Rightarrow> descent fr a N exponent' z'))
      else Some (Inr (exponent, z)))"

fun miller_rabin_loop ::
  "nat \<Rightarrow> rng \<Rightarrow> nat \<Rightarrow> int \<Rightarrow> int list \<Rightarrow> (error + verdict \<times> nat) option" where
  "miller_rabin_loop fr rnd s N [] = Some (Inr (Prime, s))"
| "miller_rabin_loop fr rnd s N (i # rest) =
     (case randint rnd s 1 (N - 1) of
        Inl e \<Rightarrow> Some (Inl e)
      | Inr (a, s') \<Rightarrow>
          (case call_mod_exp fr a (PyInt (N - 1)) N of
             Inl e \<Rightarrow> Some (Inl e)
           | Inr r \<Rightarrow>
               if r = 1 then
                 (case descent fr a N (PyInt (N - 1)) 1 of
                    None \<Rightarrow> None
                  | Some (Inl e) \<Rightarrow> Some (Inl e)
                  | Some (Inr (exponent, z)) \<Rightarrow>
                      if N = 0 then Some (Inl ZeroDivisionError)
                      else if z mod N \<noteq> N - 1 \<and> z mod N \<noteq> 1
                        then Some (Inr (Composite, s'))
                      else miller_rabin_loop fr rnd s' N rest)
               else Some (Inr (Composite, s'))))"

definition run_miller_rabin ::
  "nat \<Rightarrow> rng \<Rightarrow> nat \<Rightarrow> int \<Rightarrow> int \<Rightarrow> (error + verdict \<times> nat) option" where
  "run_miller_rabin fr rnd s N k = miller_rabin_loop fr rnd s N [1..k - 1]"

subsection \<open>Both tests\<close>


section \<open>Properties of modular exponentiation\<close>

lemma mod_exp_zero: "mod_exp fr x 0 N = Inr 1"
  by (subst mod_exp.simps) simp

lemma bitlen_half: "0 < y \<Longrightarrow> bitlen (y div 2) = bitlen y - 1"
  by (subst (2) compute_bitlen) simp

lemma bitlen_pos: "0 < y \<Longrightarrow> 1 \<le> bitlen y"
  by (simp add: bitlen_alt_def)

text \<open>With a frame for every bit of \<open>y\<close>, the result is the power's residue.\<close>

lemma mod_exp_pos:
  "0 < y \<Longrightarrow> N \<noteq> 0 \<Longrightarrow> bitlen y \<le> int fr \<Longrightarrow> mod_exp fr x y N = Inr (x ^ nat y mod N)"
proof (induction fr x y N rule: mod_exp.induct)
  case (1 fr x y N)
  have fr: "fr \<noteq> 0" using bitlen_pos [OF \<open>0 < y\<close>] "1.prems"(3) by auto
  have split: "nat y = 2 * nat (y div 2) + nat (y mod 2)"
  proof -
    have a: "0 \<le> 2 * (y div 2)" and b: "0 \<le> y mod 2"
      using \<open>0 < y\<close> by simp_all
    have "nat (2 * (y div 2) + y mod 2) = nat (2 * (y div 2)) + nat (y mod 2)"
      by (rule nat_add_distrib [OF a b])
    moreover have "nat (2 * (y div 2)) = 2 * nat (y div 2)"
      by (simp add: nat_mult_distrib)
    moreover have "2 * (y div 2) + y mod 2 = y"
      by simp
    ultimately show ?thesis by simp
  qed
  obtain z where rec: "mod_exp (fr - 1) x (y div 2) N = Inr z"
    and z: "z mod N = x ^ nat (y div 2) mod N"
  proof (cases "y div 2 = 0")
    case True
    then show ?thesis using that [of 1] by (simp add: mod_exp_zero)
  next
    case False
    with \<open>0 < y\<close> have h: "0 < y div 2" by presburger
    have "bitlen (y div 2) \<le> int (fr - 1)"
      using bitlen_half [OF \<open>0 < y\<close>] "1.prems"(3) fr by simp
    with "1.IH" "1.prems" h fr
    have "mod_exp (fr - 1) x (y div 2) N = Inr (x ^ nat (y div 2) mod N)"
      by simp
    then show ?thesis using that by simp
  qed
  have sq: "z ^ 2 mod N = (x ^ nat (y div 2)) ^ 2 mod N"
    using z by (metis power_mod)
  show ?case
  proof (cases "y mod 2 = 0")
    case True
    then have "x ^ nat y = (x ^ nat (y div 2)) ^ 2"
      using split by (simp add: power_even_eq)
    then show ?thesis
      using True \<open>0 < y\<close> \<open>N \<noteq> 0\<close> rec sq fr
      by (subst mod_exp.simps) simp
  next
    case False
    then have "y mod 2 = 1" by presburger
    then have "nat y = Suc (2 * nat (y div 2))"
      using split by simp
    then have "x ^ nat y = x * (x ^ nat (y div 2)) ^ 2"
      by (simp only: power_odd_eq)
    moreover have "x * z ^ 2 mod N = x * (x ^ nat (y div 2)) ^ 2 mod N"
      using sq by (metis mod_mult_right_eq)
    ultimately show ?thesis
      using False \<open>0 < y\<close> \<open>N \<noteq> 0\<close> rec fr
      by (subst mod_exp.simps) simp
  qed
qed

text \<open>With fewer frames than \<open>y\<close> has bits, the recursion runs out of stack.\<close>

lemma mod_exp_deep:
  "0 < y \<Longrightarrow> int fr < bitlen y \<Longrightarrow> mod_exp fr x y N = Inl RecursionError"
proof (induction fr x y N rule: mod_exp.induct)
  case (1 fr x y N)
  show ?case
  proof (cases "fr = 0")
    case True
    then show ?thesis using \<open>0 < y\<close> by (subst mod_exp.simps) simp
  next
    case False
    have b: "int (fr - 1) < bitlen (y div 2)"
      using bitlen_half [OF \<open>0 < y\<close>] "1.prems"(2) False by simp
    then have "0 < bitlen (y div 2)" by linarith
    then have h: "0 < y div 2" by (simp add: bitlen_alt_def split: if_splits)
    from "1.IH" False \<open>0 < y\<close> h b
    have "mod_exp (fr - 1) x (y div 2) N = Inl RecursionError" by simp
    then show ?thesis using False \<open>0 < y\<close> by (subst mod_exp.simps) simp
  qed
qed

lemma mod_exp_negative: "y < 0 \<Longrightarrow> mod_exp fr x y N = Inl RecursionError"
proof (induction fr x y N rule: mod_exp.induct)
  case (1 fr x y N)
  show ?case
  proof (cases "fr = 0")
    case True
    then show ?thesis using \<open>y < 0\<close> by (subst mod_exp.simps) simp
  next
    case False
    from \<open>y < 0\<close> have "y div 2 < 0" by simp
    with "1.IH" False \<open>y < 0\<close>
    have "mod_exp (fr - 1) x (y div 2) N = Inl RecursionError" by simp
    then show ?thesis using False \<open>y < 0\<close> by (subst mod_exp.simps) simp
  qed
qed

text \<open>
  Claim C1, as the code has it. Let \<open>x\<close> be an integer, \<open>y \<ge> 0\<close> and \<open>N \<ge> 1\<close>. The call
  recurses once for every bit of \<open>y\<close>. If the interpreter still allows that many nested
  calls (\<open>bitlen y \<le> fr\<close>), \<open>mod_exp\<close> returns a value \<open>r\<close>: the base case returns the
  literal \<open>1\<close>, whatever \<open>N\<close> is; whenever \<open>N \<ge> 2\<close> or \<open>y \<ge> 1\<close>, \<open>r\<close> is \<open>x ^ y mod N\<close> and
  lies in \<open>[0, N - 1]\<close>; for \<open>N = 1\<close> and \<open>y \<ge> 1\<close> it is \<open>0\<close>. If the interpreter allows
  fewer, \<open>mod_exp\<close> raises \<^verbatim>\<open>RecursionError\<close>.
\<close>

theorem mod_exp_spec:
  assumes "0 \<le> y" and "1 \<le> N"
  shows "(bitlen y \<le> int fr \<longrightarrow>
            (\<exists>r. mod_exp fr x y N = Inr r
               \<and> (y = 0 \<longrightarrow> r = 1)
               \<and> (2 \<le> N \<or> 1 \<le> y \<longrightarrow> r = x ^ nat y mod N \<and> 0 \<le> r \<and> r \<le> N - 1)
               \<and> (N = 1 \<and> 1 \<le> y \<longrightarrow> r = 0)))
       \<and> (int fr < bitlen y \<longrightarrow> mod_exp fr x y N = Inl RecursionError)"
proof (cases "y = 0")
  case True
  then show ?thesis using \<open>1 \<le> N\<close> by (simp add: mod_exp_zero)
next
  case False
  with \<open>0 \<le> y\<close> have y: "0 < y" by simp
  from \<open>1 \<le> N\<close> have N: "N \<noteq> 0" "0 < N" by simp_all
  have r: "0 \<le> x ^ nat y mod N" "x ^ nat y mod N < N"
    using \<open>0 < N\<close> by simp_all
  show ?thesis
  proof (intro conjI impI)
    assume "bitlen y \<le> int fr"
    with y N have "mod_exp fr x y N = Inr (x ^ nat y mod N)"
      by (simp add: mod_exp_pos)
    with r False show "\<exists>r. mod_exp fr x y N = Inr r
               \<and> (y = 0 \<longrightarrow> r = 1)
               \<and> (2 \<le> N \<or> 1 \<le> y \<longrightarrow> r = x ^ nat y mod N \<and> 0 \<le> r \<and> r \<le> N - 1)
               \<and> (N = 1 \<and> 1 \<le> y \<longrightarrow> r = 0)"
      by auto
  next
    assume "int fr < bitlen y"
    with y show "mod_exp fr x y N = Inl RecursionError" by (rule mod_exp_deep)
  qed
qed

theorem mod_exp_spec_witness:
  "(0::int) \<le> 13 \<and> (1::int) \<le> 7 \<and> bitlen 13 \<le> int 1000 \<and> mod_exp 1000 3 13 7 = Inr 3
   \<and> (3::int) ^ nat 13 mod 7 = 3 \<and> int 3 < bitlen 13 \<and> mod_exp 3 3 13 7 = Inl RecursionError"
proof -
  have b: "bitlen 13 = 4" by (simp add: compute_bitlen)
  have "\<exists>r. mod_exp 1000 3 13 7 = Inr r
           \<and> ((13::int) = 0 \<longrightarrow> r = 1)
           \<and> ((2::int) \<le> 7 \<or> (1::int) \<le> 13 \<longrightarrow> r = 3 ^ nat 13 mod 7 \<and> 0 \<le> r \<and> r \<le> 7 - 1)
           \<and> ((7::int) = 1 \<and> (1::int) \<le> 13 \<longrightarrow> r = 0)"
    using mod_exp_spec [of 13 7 1000 3] b by simp
  moreover have "mod_exp 3 3 13 7 = Inl RecursionError"
    using mod_exp_spec [of 13 7 3 3] b by simp
  ultimately show ?thesis using b by auto
qed

text \<open>
  Claim C1 as stated fails at \<open>y = 0\<close>, \<open>N = 1\<close>: the code returns \<open>1\<close>, which is neither
  \<open>x ^ 0 mod 1 = 0\<close> nor a member of \<open>[0, N - 1] = {0}\<close>.
\<close>

theorem mod_exp_modulus_one_counterexample:
  "mod_exp 1000 5 0 1 = Inr 1 \<and> (5::int) ^ nat 0 mod 1 = 0 \<and> \<not> (1::int) \<le> 1 - 1"
  by (simp add: mod_exp_zero)

section \<open>Evaluation\<close>

text \<open>The equations that evaluate the double arithmetic on numerals.\<close>

lemmas float_eval = double_round_def binade_def round_half_even_def compute_bitlen Let_def
  int_truediv_def float_sub_def float_truediv_def

section \<open>The random source and the trial loops\<close>

lemma randint_cases:
  "randint rnd s lo hi = Inl ValueError \<and> hi < lo
   \<or> (\<exists>a. randint rnd s lo hi = Inr (a, Suc s) \<and> lo \<le> a \<and> a \<le> hi \<and> a = lo + rnd s mod (hi - lo + 1))"
proof (cases "hi < lo")
  case True
  then show ?thesis by (simp add: randint_def)
next
  case False
  then have "0 < hi - lo + 1" by simp
  then have "0 \<le> rnd s mod (hi - lo + 1)" "rnd s mod (hi - lo + 1) < hi - lo + 1"
    by (rule pos_mod_sign, rule pos_mod_bound)
  then have "lo \<le> lo + rnd s mod (hi - lo + 1)" "lo + rnd s mod (hi - lo + 1) \<le> hi"
    by linarith+
  then show ?thesis using False by (simp add: randint_def)
qed






lemma miller_rabin_loop_counter:
  "miller_rabin_loop fr rnd s N xs = Some (Inr (v, s')) \<Longrightarrow> s \<le> s' \<and> s' \<le> s + length xs"
proof (induction xs arbitrary: s)
  case Nil
  then show ?case by simp
next
  case (Cons i rest)
  from Cons.prems obtain a where a: "randint rnd s 1 (N - 1) = Inr (a, Suc s)"
    using randint_cases [of rnd s 1 "N - 1"] by auto
  from Cons.prems a have
    "(v, s') = (Composite, Suc s) \<or> miller_rabin_loop fr rnd (Suc s) N rest = Some (Inr (v, s'))"
    by (auto split: sum.splits option.splits if_splits prod.splits)
  then show ?case
  proof
    assume "(v, s') = (Composite, Suc s)"
    then show ?thesis by simp
  next
    assume "miller_rabin_loop fr rnd (Suc s) N rest = Some (Inr (v, s'))"
    from Cons.IH [OF this] show ?thesis by simp
  qed
qed


lemma range_length: "length [1..k - 1] = nat (k - 1)"
  by simp

lemma fermat_loop_prime_draws:
  "fermat_loop fr rnd s N xs = Inr (Prime, s') \<Longrightarrow> s' = s + length xs"
proof (induction xs arbitrary: s)
  case Nil
  then show ?case by simp
next
  case (Cons i rest)
  from Cons.prems obtain a where a: "randint rnd s 1 (N - 1) = Inr (a, Suc s)"
    using randint_cases [of rnd s 1 "N - 1"] by auto
  from Cons.prems a have "fermat_loop fr rnd (Suc s) N rest = Inr (Prime, s')"
    by (auto split: sum.splits if_splits)
  from Cons.IH [OF this] show ?case by simp
qed

lemma fermat_loop_counter:
  "fermat_loop fr rnd s N xs = Inr (v, s') \<Longrightarrow> s \<le> s' \<and> s' \<le> s + length xs"
proof (induction xs arbitrary: s)
  case Nil
  then show ?case by simp
next
  case (Cons i rest)
  from Cons.prems obtain a where a: "randint rnd s 1 (N - 1) = Inr (a, Suc s)"
    using randint_cases [of rnd s 1 "N - 1"] by auto
  from Cons.prems a have
    "(v, s') = (Composite, Suc s) \<or> fermat_loop fr rnd (Suc s) N rest = Inr (v, s')"
    by (auto split: sum.splits if_splits)
  then show ?case
  proof
    assume "(v, s') = (Composite, Suc s)"
    then show ?thesis by simp
  next
    assume "fermat_loop fr rnd (Suc s) N rest = Inr (v, s')"
    from Cons.IH [OF this] show ?thesis by simp
  qed
qed

lemma miller_rabin_loop_prime_draws:
  "miller_rabin_loop fr rnd s N xs = Some (Inr (Prime, s')) \<Longrightarrow> s' = s + length xs"
proof (induction xs arbitrary: s)
  case Nil
  then show ?case by simp
next
  case (Cons i rest)
  from Cons.prems obtain a where a: "randint rnd s 1 (N - 1) = Inr (a, Suc s)"
    using randint_cases [of rnd s 1 "N - 1"] by auto
  from Cons.prems a have "miller_rabin_loop fr rnd (Suc s) N rest = Some (Inr (Prime, s'))"
    by (auto split: sum.splits option.splits if_splits prod.splits)
  from Cons.IH [OF this] show ?case by simp
qed

lemma halve_num_is_float: "halve_num e = Inr e' \<Longrightarrow> \<exists>v. e' = PyFloat v"
  by (cases e) (auto simp: map_sum_def split: sum.splits)

text \<open>
  Claim C10. Asked for one trial (\<open>k = 1\<close>), either test runs none: the loop ranges over
  \<^verbatim>\<open>range(1, 1)\<close>, which is empty, so no witness is drawn (the draw counter is unchanged)
  and the verdict is \<^verbatim>\<open>"prime"\<close> for every \<open>N\<close>, composite or not. In general the loop
  iterates \<open>k - 1\<close> times: a run that returns a verdict has drawn at most \<open>k - 1\<close>
  witnesses, and exactly \<open>k - 1\<close> when the verdict is \<^verbatim>\<open>"prime"\<close>.
\<close>

theorem one_trial_requested_none_run:
  "run_fermat fr rnd s N 1 = Inr (Prime, s)
   \<and> run_miller_rabin fr rnd s N 1 = Some (Inr (Prime, s))
   \<and> (\<forall>k v s'. run_fermat fr rnd s N k = Inr (v, s') \<longrightarrow> s' \<le> s + nat (k - 1))
   \<and> (\<forall>k s'. run_fermat fr rnd s N k = Inr (Prime, s') \<longrightarrow> s' = s + nat (k - 1))
   \<and> (\<forall>k v s'. run_miller_rabin fr rnd s N k = Some (Inr (v, s')) \<longrightarrow> s' \<le> s + nat (k - 1))
   \<and> (\<forall>k s'. run_miller_rabin fr rnd s N k = Some (Inr (Prime, s')) \<longrightarrow> s' = s + nat (k - 1))"
proof (intro conjI allI impI)
  show "run_fermat fr rnd s N 1 = Inr (Prime, s)"
    and "run_miller_rabin fr rnd s N 1 = Some (Inr (Prime, s))"
    by (simp_all add: run_fermat_def run_miller_rabin_def)
next
  fix k v s' assume "run_fermat fr rnd s N k = Inr (v, s')"
  then show "s' \<le> s + nat (k - 1)"
    using fermat_loop_counter [of fr rnd s N "[1..k - 1]" v s'] by (simp add: run_fermat_def)
next
  fix k s' assume "run_fermat fr rnd s N k = Inr (Prime, s')"
  then show "s' = s + nat (k - 1)"
    using fermat_loop_prime_draws [of fr rnd s N "[1..k - 1]" s'] by (simp add: run_fermat_def)
next
  fix k v s' assume "run_miller_rabin fr rnd s N k = Some (Inr (v, s'))"
  then show "s' \<le> s + nat (k - 1)"
    using miller_rabin_loop_counter [of fr rnd s N "[1..k - 1]" v s']
    by (simp add: run_miller_rabin_def)
next
  fix k s' assume "run_miller_rabin fr rnd s N k = Some (Inr (Prime, s'))"
  then show "s' = s + nat (k - 1)"
    using miller_rabin_loop_prime_draws [of fr rnd s N "[1..k - 1]" s']
    by (simp add: run_miller_rabin_def)
qed

theorem one_trial_requested_none_run_witness:
  "run_fermat 1000 (\<lambda>i. int i) 0 4 1 = Inr (Prime, 0)
   \<and> run_miller_rabin 1000 (\<lambda>i. int i) 0 4 1 = Some (Inr (Prime, 0))
   \<and> run_fermat 1000 (\<lambda>i. int i) 0 7 3 = Inr (Prime, 2) \<and> (2::nat) = 0 + nat (3 - 1)
   \<and> run_miller_rabin 1000 (\<lambda>i. int i) 0 7 3 = Some (Inr (Prime, 2))"
proof -
  have f: "run_fermat 1000 (\<lambda>i. int i) 0 7 3 = Inr (Prime, 2)"
    by (simp add: run_fermat_def randint_def call_mod_exp_def mod_exp.simps upto.simps)
  have d1: "descent 1000 1 7 (PyInt 6) 1 = Some (Inr (PyFloat 3, 1))"
    by (simp add: descent.simps float_eval call_mod_exp_def mod_exp_float.simps)
  have d2: "descent 1000 2 7 (PyInt 6) 1 = Some (Inr (PyFloat 3, 1))"
    by (simp add: descent.simps float_eval call_mod_exp_def mod_exp_float.simps)
  have m: "run_miller_rabin 1000 (\<lambda>i. int i) 0 7 3 = Some (Inr (Prime, 2))"
    using d1 d2
    by (simp add: run_miller_rabin_def randint_def call_mod_exp_def mod_exp.simps upto.simps)
  note t4 = one_trial_requested_none_run [of 1000 "\<lambda>i. int i" 0 4]
  note t7 = one_trial_requested_none_run [of 1000 "\<lambda>i. int i" 0 7]
  note a = t4 [THEN conjunct1] t4 [THEN conjunct2, THEN conjunct1]
  note q = t7 [THEN conjunct2, THEN conjunct2, THEN conjunct2, THEN conjunct1]
  from q [rule_format, OF f] have c: "(2::nat) = 0 + nat (3 - 1)" .
  from a f m c show ?thesis by (intro conjI)
qed

text \<open>
  Claim C2 (a defect of the code). Asked for \<open>k = 2\<close> trials on \<open>N = 4\<close>, \<open>run_fermat\<close> draws
  one witness only (\<open>a = 1\<close>, which passes) and answers \<^verbatim>\<open>"prime"\<close> with the draw counter
  at \<open>1\<close>. The second trial the claim requires would have drawn \<open>a = 2\<close>, for which
  \<open>2 ^ 3 mod 4 = 0\<close> is not \<open>1\<close>, and answered \<^verbatim>\<open>"composite"\<close>. (Here and in the
  evaluations below the interpreter allows \<open>1000\<close> nested calls, far more than the
  exponents need.)
\<close>

theorem run_fermat_second_witness_skipped:
  "run_fermat 1000 (\<lambda>i. int i) 0 4 2 = Inr (Prime, 1)
   \<and> randint (\<lambda>i. int i) 1 1 (4 - 1) = Inr (2, 2)
   \<and> call_mod_exp 1000 2 (PyInt (4 - 1)) 4 = Inr 0"
  by (simp add: run_fermat_def randint_def call_mod_exp_def mod_exp.simps)

text \<open>
  Claim C3 (the same defect). Asked for \<open>k = 2\<close> trials on \<open>N = 9\<close>, \<open>run_miller_rabin\<close>
  draws one witness only (\<open>a = 1\<close>, which passes) and answers \<^verbatim>\<open>"prime"\<close>. The second
  trial would have drawn \<open>a = 2\<close>, for which \<open>2 ^ 8 mod 9 = 4\<close> is not \<open>1\<close>.
\<close>

theorem run_miller_rabin_second_witness_skipped:
  "run_miller_rabin 1000 (\<lambda>i. int i) 0 9 2 = Some (Inr (Prime, 1))
   \<and> randint (\<lambda>i. int i) 1 1 (9 - 1) = Inr (2, 2)
   \<and> call_mod_exp 1000 2 (PyInt (9 - 1)) 9 = Inr 4"
proof -
  have d: "descent 1000 1 9 (PyInt 8) 1 = Some (Inr (PyFloat 1, 1))"
    by (simp add: descent.simps float_eval call_mod_exp_def mod_exp_float.simps)
  show ?thesis
    using d by (simp add: run_miller_rabin_def randint_def call_mod_exp_def mod_exp.simps)
qed

text \<open>
  Claim C6, as the code has it. Neither test validates its input. For every \<open>k < 1\<close>
  both return \<^verbatim>\<open>"prime"\<close> for every \<open>N\<close> (also for \<open>N < 2\<close>), without drawing a witness.
  For \<open>N < 2\<close> and \<open>k \<ge> 2\<close> the first draw, \<^verbatim>\<open>random.randint(1, N - 1)\<close>, is from an empty
  range and raises \<^verbatim>\<open>ValueError\<close>, so no verdict is returned.
\<close>

theorem no_input_validation:
  "(k < 1 \<longrightarrow> run_fermat fr rnd s N k = Inr (Prime, s)
              \<and> run_miller_rabin fr rnd s N k = Some (Inr (Prime, s)))
   \<and> (N < 2 \<and> 2 \<le> k \<longrightarrow> run_fermat fr rnd s N k = Inl ValueError
              \<and> run_miller_rabin fr rnd s N k = Some (Inl ValueError))"
proof (intro conjI impI)
  assume "k < 1"
  then show "run_fermat fr rnd s N k = Inr (Prime, s)"
    and "run_miller_rabin fr rnd s N k = Some (Inr (Prime, s))"
    by (simp_all add: run_fermat_def run_miller_rabin_def)
next
  assume h: "N < 2 \<and> 2 \<le> k"
  then have "[1..k - 1] = 1 # [2..k - 1]"
    by (simp add: upto_rec1)
  moreover have "randint rnd s 1 (N - 1) = Inl ValueError"
    using h by (simp add: randint_def)
  ultimately show "run_fermat fr rnd s N k = Inl ValueError"
    and "run_miller_rabin fr rnd s N k = Some (Inl ValueError)"
    by (simp_all add: run_fermat_def run_miller_rabin_def)
qed

theorem no_input_validation_witness:
  "(0::int) < 1 \<and> run_fermat 1000 (\<lambda>i. 0) 0 1 0 = Inr (Prime, 0)
   \<and> run_miller_rabin 1000 (\<lambda>i. 0) 0 1 0 = Some (Inr (Prime, 0))
   \<and> (1::int) < 2 \<and> (2::int) \<le> 3 \<and> run_fermat 1000 (\<lambda>i. 0) 0 1 3 = Inl ValueError
   \<and> run_miller_rabin 1000 (\<lambda>i. 0) 0 1 3 = Some (Inl ValueError)"
  using no_input_validation [of 0 1000 "\<lambda>i. 0" 0 1]
    no_input_validation [of 3 1000 "\<lambda>i. 0" 0 1]
  by simp

text \<open>
  Claim C6 as stated fails at \<open>N = 1\<close>, \<open>k = 0\<close>, a violation of both bounds: the two tests
  return the verdict \<^verbatim>\<open>"prime"\<close>.
\<close>

theorem invalid_input_verdict_counterexample:
  "run_fermat 1000 (\<lambda>i. 0) 0 1 0 = Inr (Prime, 0)
   \<and> run_miller_rabin 1000 (\<lambda>i. 0) 0 1 0 = Some (Inr (Prime, 0))"
  by (simp add: run_fermat_def run_miller_rabin_def)



section \<open>The float exponent of the descent\<close>

text \<open>
  Claim C5 (a defect of the code). The descent halves with \<^verbatim>\<open>exponent / 2\<close>, which is
  true division: for \<open>N = 5\<close> the first halving turns the integer \<open>4\<close> into the double
  \<open>2.0\<close>, and \<open>mod_exp\<close> is called with doubles from then on (the loop ends with the
  exponent \<open>1.0\<close>). For an exponent of more than 53 significant bits the double is not even
  the half: \<open>(2 ^ 61 - 2) / 2\<close> is the double \<open>2 ^ 60\<close>, where the half is \<open>2 ^ 60 - 1\<close>.
\<close>

theorem descent_passes_a_double:
  "halve_num (PyInt (5 - 1)) = Inr (PyFloat 2)
   \<and> descent 1000 1 5 (PyInt (5 - 1)) 1 = Some (Inr (PyFloat 1, 1))
   \<and> halve_num (PyInt (2 ^ 61 - 2)) = Inr (PyFloat (2 ^ 60))
   \<and> (2 ^ 61 - 2) div 2 = (2 ^ 60 - 1 :: int)"
  by (simp add: descent.simps float_eval call_mod_exp_def mod_exp_float.simps)

text \<open>
  Claim C4 (the same defect). \<open>N = 2 ^ 61 - 1\<close> is a prime (the Mersenne prime
  \<open>M61\<close>). With \<open>k = 2\<close> and the witness \<open>a = 2\<close>, Fermat's check passes, the descent
  computes the exponent \<open>(N - 1) / 2\<close> as the double \<open>2 ^ 60\<close> in place of \<open>2 ^ 60 - 1\<close>,
  gets \<open>z = 2 ^ (2 ^ 60) mod N = 2\<close>, and \<open>run_miller_rabin\<close> answers \<^verbatim>\<open>"composite"\<close>.
\<close>

theorem mersenne_61_reported_composite:
  "run_miller_rabin 1000 (\<lambda>i. 1) 0 (2 ^ 61 - 1) 2 = Some (Inr (Composite, 1))"
proof -
  have a: "call_mod_exp 1000 2 (PyInt (2 ^ 61 - 2)) (2 ^ 61 - 1) = Inr 1"
    by (simp add: call_mod_exp_def mod_exp.simps)
  have d: "descent 1000 2 (2 ^ 61 - 1) (PyInt (2 ^ 61 - 2)) 1
      = Some (Inr (PyFloat (2 ^ 60), 2))"
    by (simp add: descent.simps float_eval call_mod_exp_def mod_exp_float.simps)
  show ?thesis
    using a d by (simp add: run_miller_rabin_def randint_def)
qed

section \<open>Rounding to a double\<close>

lemma binade_bounds:
  assumes "x \<noteq> 0"
  shows "2 powi (binade x) \<le> \<bar>x\<bar>" and "\<bar>x\<bar> < 2 powi (binade x + 1)"
proof -
  have "2 powi (binade x) \<le> \<bar>x\<bar> \<and> \<bar>x\<bar> < 2 powi (binade x + 1)"
  proof (cases "1 \<le> \<bar>x\<bar>")
    case True
    define n where "n = \<lfloor>\<bar>x\<bar>\<rfloor>"
    have n: "0 < n" "of_int n \<le> \<bar>x\<bar>" "\<bar>x\<bar> < of_int n + 1"
      unfolding n_def using True by linarith+
    from bitlen_bounds [OF \<open>0 < n\<close>]
    have lo: "2 ^ nat (bitlen n - 1) \<le> n" and hi: "n + 1 \<le> 2 ^ nat (bitlen n)"
      by simp_all
    have b1: "1 \<le> bitlen n"
      using \<open>0 < n\<close> by (simp add: bitlen_alt_def)
    have b: "binade x = bitlen n - 1"
      using True by (simp add: binade_def n_def)
    have "(2::real) powi (bitlen n - 1) = of_int (2 ^ nat (bitlen n - 1))"
      using b1 by (simp add: power_int_nonneg_exp)
    also have "\<dots> \<le> of_int n" using lo by (simp only: of_int_le_iff)
    finally have l: "(2::real) powi (bitlen n - 1) \<le> \<bar>x\<bar>" using n by simp
    have "\<bar>x\<bar> < of_int (n + 1)" using n by simp
    also have "\<dots> \<le> of_int (2 ^ nat (bitlen n))" using hi by (simp only: of_int_le_iff)
    also have "\<dots> = (2::real) powi (bitlen n)"
      using b1 by (simp add: power_int_nonneg_exp)
    finally have "\<bar>x\<bar> < (2::real) powi (bitlen n)" .
    with l b show ?thesis by simp
  next
    case False
    define y where "y = 1 / \<bar>x\<bar>"
    define n where "n = \<lceil>y\<rceil> - 1"
    have x: "0 < \<bar>x\<bar>" "\<bar>x\<bar> < 1" using False assms by simp_all
    then have y1: "1 < y" by (simp add: y_def)
    have n: "0 < n" "of_int n < y" "y \<le> of_int n + 1"
      unfolding n_def using y1 by linarith+
    from bitlen_bounds [OF \<open>0 < n\<close>]
    have lo: "2 ^ nat (bitlen n - 1) \<le> n" and hi: "n + 1 \<le> 2 ^ nat (bitlen n)"
      by simp_all
    have b1: "1 \<le> bitlen n"
      using \<open>0 < n\<close> by (simp add: bitlen_alt_def)
    have b: "binade x = - bitlen n"
      using False by (simp add: binade_def n_def y_def)
    have xy: "\<bar>x\<bar> = 1 / y" by (simp add: y_def)
    have "y \<le> of_int (n + 1)" using n by simp
    also have "\<dots> \<le> of_int (2 ^ nat (bitlen n))" using hi by (simp only: of_int_le_iff)
    also have "\<dots> = (2::real) ^ nat (bitlen n)" by simp
    finally have "1 / (2::real) ^ nat (bitlen n) \<le> 1 / y"
      using y1 by (simp add: frac_le)
    moreover have "(2::real) powi (- bitlen n) = 1 / 2 ^ nat (bitlen n)"
      using b1 by (simp add: power_int_minus_divide power_int_nonneg_exp)
    ultimately have l: "(2::real) powi (- bitlen n) \<le> \<bar>x\<bar>" using xy by simp
    have "(2::real) ^ nat (bitlen n - 1) = of_int (2 ^ nat (bitlen n - 1))" by simp
    also have "\<dots> \<le> of_int n" using lo by (simp only: of_int_le_iff)
    also have "\<dots> < y" using n by simp
    finally have "1 / y < 1 / (2::real) ^ nat (bitlen n - 1)"
      by (simp add: frac_less2)
    moreover have "(2::real) powi (- bitlen n + 1) = 1 / 2 ^ nat (bitlen n - 1)"
    proof -
      have "- bitlen n + 1 = - (bitlen n - 1)" by simp
      then show ?thesis
        using b1 by (simp only: power_int_minus_divide) (simp add: power_int_nonneg_exp)
    qed
    ultimately have "\<bar>x\<bar> < (2::real) powi (- bitlen n + 1)" using xy by simp
    with l b show ?thesis by simp
  qed
  then show "2 powi (binade x) \<le> \<bar>x\<bar>" and "\<bar>x\<bar> < 2 powi (binade x + 1)"
    by simp_all
qed

lemma two_powi_less_cancel: "(2::real) powi a < 2 powi b \<Longrightarrow> a < b"
proof (rule ccontr)
  assume "(2::real) powi a < 2 powi b" and "\<not> a < b"
  then have "b \<le> a" by simp
  then have "(2::real) powi b \<le> 2 powi a"
    by (rule power_int_increasing) simp
  with \<open>(2::real) powi a < 2 powi b\<close> show False by simp
qed

lemma binade_unique:
  assumes "x \<noteq> 0" and "2 powi e \<le> \<bar>x\<bar>" and "\<bar>x\<bar> < 2 powi (e + 1)"
  shows "binade x = e"
proof -
  from binade_bounds [OF \<open>x \<noteq> 0\<close>] assms
  have "(2::real) powi (binade x) < 2 powi (e + 1)" and "(2::real) powi e < 2 powi (binade x + 1)"
    by linarith+
  then have "binade x < e + 1" and "e < binade x + 1"
    using two_powi_less_cancel by blast+
  then show ?thesis by simp
qed


lemma round_half_even_of_int [simp]: "round_half_even (of_int n) = n"
  by (simp add: round_half_even_def)

text \<open>A number with at most 53 significant bits, at or above the subnormal spacing, is
  a double: rounding leaves it as it is.\<close>

lemma double_round_exact:
  assumes m: "\<bar>m\<bar> < 2 ^ 53" and e: "- 1074 \<le> e"
  shows "double_round (of_int m * 2 powi e) = of_int m * 2 powi e"
proof (cases "m = 0")
  case True
  then show ?thesis by (simp add: double_round_def)
next
  case False
  define x :: real where "x = of_int m * 2 powi e"
  define E where "E = max (binade x) (- 1022) - 52"
  have x0: "x \<noteq> 0" using False by (simp add: x_def)
  have "\<bar>x\<bar> = of_int \<bar>m\<bar> * 2 powi e"
    by (simp add: x_def abs_mult)
  also have "\<dots> < of_int (2 ^ 53) * 2 powi e"
  proof (rule mult_strict_right_mono)
    show "real_of_int \<bar>m\<bar> < of_int (2 ^ 53)"
      using m by (simp only: of_int_less_iff)
    show "(0::real) < 2 powi e" by simp
  qed
  also have "\<dots> = 2 powi (e + 53)"
    by (simp add: power_int_add)
  finally have "\<bar>x\<bar> < 2 powi (e + 53)" .
  with binade_bounds(1) [OF x0] have "(2::real) powi (binade x) < 2 powi (e + 53)"
    by linarith
  then have "binade x < e + 53" by (rule two_powi_less_cancel)
  with e have le: "E \<le> e" by (simp add: E_def)
  have "x / 2 powi E = of_int m * 2 powi (e - E)"
    by (simp add: x_def power_int_diff)
  also have "\<dots> = of_int (m * 2 ^ nat (e - E))"
    using le by (simp add: power_int_nonneg_exp)
  finally have q: "x / 2 powi E = of_int (m * 2 ^ nat (e - E))" .
  have "double_round x = of_int (round_half_even (x / 2 powi E)) * 2 powi E"
    using x0 by (simp add: double_round_def E_def Let_def)
  also have "\<dots> = (x / 2 powi E) * 2 powi E"
    by (simp only: q round_half_even_of_int)
  also have "\<dots> = x" by simp
  finally show ?thesis by (simp add: x_def)
qed


lemma round_half_even_small:
  assumes "0 \<le> m" and "m \<le> 1 / 2"
  shows "round_half_even m = 0"
proof -
  have "\<lfloor>m\<rfloor> = 0" using assms by linarith
  then show ?thesis using assms by (simp add: round_half_even_def)
qed

lemma round_half_even_up:
  assumes "even n" and "of_int n - 1 / 2 \<le> m" and "m < of_int n"
  shows "round_half_even m = n"
proof -
  have f: "\<lfloor>m\<rfloor> = n - 1" using assms by linarith
  have o: "odd (n - 1)" using \<open>even n\<close> by simp
  have r: "\<not> m - of_int (n - 1) < 1 / 2" using assms by simp
  have "round_half_even m =
      (if m - of_int (n - 1) < 1 / 2 then n - 1
       else if 1 / 2 < m - of_int (n - 1) then n - 1 + 1
       else if even (n - 1) then n - 1 else n - 1 + 1)"
    by (simp only: round_half_even_def Let_def f)
  also have "\<dots> = n - 1 + 1"
    by (simp only: r o if_False if_cancel)
  finally show ?thesis by simp
qed

lemma two_powi_neg: "(2::real) powi (- int j) = 1 / 2 ^ j"
  by (simp add: power_int_minus_divide)

lemma double_round_tiny:
  assumes "1075 \<le> j"
  shows "double_round (1 / 2 ^ j) = 0"
proof -
  define x :: real where "x = 1 / 2 ^ j"
  have x0: "x \<noteq> 0" "0 < x" by (simp_all add: x_def)
  have "x = 2 powi (- int j)" by (simp add: x_def two_powi_neg)
  also have "\<dots> \<le> 2 powi (- 1075)"
    using assms by (intro power_int_increasing) simp_all
  finally have small: "x \<le> 2 powi (- 1075)" .
  also have "\<dots> < 2 powi (- 1022)"
    by (intro power_int_strict_increasing) simp_all
  finally have "\<bar>x\<bar> < 2 powi (- 1022)" using x0 by simp
  with binade_bounds(1) [OF x0(1)] have "(2::real) powi (binade x) < 2 powi (- 1022)"
    by linarith
  then have "binade x < - 1022" by (rule two_powi_less_cancel)
  then have E: "max (binade x) (- 1022) - 52 = - 1074" by simp
  have "x / 2 powi (- 1074) \<le> 2 powi (- 1075) / 2 powi (- 1074)"
    using small by (intro divide_right_mono) simp_all
  also have "\<dots> = 2 powi (- 1075 - (- 1074))"
    by (subst power_int_diff) simp_all
  also have "\<dots> = 1 / 2" by simp
  finally have "x / 2 powi (- 1074) \<le> 1 / 2" .
  moreover have "0 \<le> x / 2 powi (- 1074)"
    using x0 by (intro divide_nonneg_nonneg) simp_all
  ultimately have "round_half_even (x / 2 powi (- 1074)) = 0"
    by (intro round_half_even_small)
  then have "double_round x = 0"
    using x0 unfolding double_round_def Let_def E by (simp only: if_False of_int_0 mult_zero_left)
  then show ?thesis by (simp only: x_def)
qed

lemma double_round_below_one:
  assumes "54 \<le> j"
  shows "double_round (1 - 1 / 2 ^ j) = 1"
proof -
  define d :: real where "d = 1 / 2 ^ j"
  define x :: real where "x = 1 - d"
  have "d = 2 powi (- int j)" by (simp add: d_def two_powi_neg)
  also have "\<dots> \<le> 2 powi (- 54)"
    using assms by (intro power_int_increasing) simp_all
  finally have d54: "d \<le> 2 powi (- 54)" .
  have d0: "0 < d" by (simp add: d_def)
  have "(2::real) powi (- 54) \<le> 2 powi (- 1)"
    by (intro power_int_increasing) simp_all
  then have dh: "d \<le> 1 / 2" using d54 by simp
  have x0: "x \<noteq> 0" and xa: "\<bar>x\<bar> = x" and xl: "1 / 2 \<le> x" and xu: "x < 1"
    using d0 dh by (simp_all add: x_def)
  have "binade x = - 1"
    using x0 xl xu xa by (intro binade_unique) simp_all
  then have E: "max (binade x) (- 1022) - 52 = - 53" by simp
  have s: "x / 2 powi (- 53) = 2 ^ 53 - d * 2 ^ 53"
    by (simp add: x_def power_int_minus_divide algebra_simps)
  have "d * 2 ^ 53 \<le> 2 powi (- 54) * 2 ^ 53"
    using d54 by (intro mult_right_mono) simp_all
  also have "\<dots> = 1 / 2" by (simp add: power_int_minus_divide)
  finally have "d * 2 ^ 53 \<le> 1 / 2" .
  moreover have "0 < d * 2 ^ 53" using d0 by simp
  ultimately have "round_half_even (x / 2 powi (- 53)) = 2 ^ 53"
    unfolding s by (intro round_half_even_up) simp_all
  then have "double_round x = of_int (2 ^ 53) * 2 powi (- 53)"
    using x0 unfolding double_round_def Let_def E by (simp only: if_False)
  also have "\<dots> = 1" by (simp add: power_int_minus_divide)
  finally show ?thesis by (simp only: x_def d_def)
qed

lemma double_round_one: "double_round 1 = 1"
  using double_round_exact [of 1 0] by simp

lemma double_round_inverse_power:
  "double_round (1 / 2 ^ j) = (if j \<le> 1074 then 1 / 2 ^ j else 0)"
proof (cases "j \<le> 1074")
  case True
  then have "- 1074 \<le> - int j" by simp
  from double_round_exact [of 1 "- int j", OF _ this] True show ?thesis
    by (simp add: two_powi_neg)
next
  case False
  then show ?thesis by (simp add: double_round_tiny)
qed

lemma double_round_one_minus_inverse_power:
  "double_round (1 - 1 / 2 ^ j) = (if j \<le> 53 then 1 - 1 / 2 ^ j else 1)"
proof (cases "j \<le> 53")
  case True
  have m: "\<bar>2 ^ j - 1 :: int\<bar> < 2 ^ 53"
  proof -
    have "(2::int) ^ j \<le> 2 ^ 53" using True by (intro power_increasing) simp_all
    moreover have "(1::int) \<le> 2 ^ j" by simp
    ultimately show ?thesis by linarith
  qed
  have e: "- 1074 \<le> - int j" using True by simp
  have "of_int (2 ^ j - 1) * 2 powi (- int j) = (1 - 1 / 2 ^ j :: real)"
    by (simp add: two_powi_neg field_simps)
  with double_round_exact [OF m e] True show ?thesis by simp
next
  case False
  then show ?thesis by (simp add: double_round_below_one)
qed

text \<open>The value of \<^verbatim>\<open>1 - (1 / (2 ** j))\<close> as a double.\<close>

lemma one_minus_inverse_power:
  "(case int_truediv 1 (2 ^ j) of Inl e \<Rightarrow> Inl e | Inr q \<Rightarrow> Inr (float_sub 1 q))
     = Inr (if j \<le> 53 then 1 - 1 / 2 ^ j else 1)"
proof -
  have le1: "(1::real) / 2 ^ j \<le> 1" by simp
  have "\<bar>double_round (1 / 2 ^ j)\<bar> \<le> 1"
    using le1 by (simp add: double_round_inverse_power)
  moreover have "(1::real) < 2 ^ 1024" by (rule one_less_power) simp_all
  ultimately have no: "\<not> 2 ^ 1024 \<le> \<bar>double_round (1 / 2 ^ j)\<bar>" by linarith
  have q: "int_truediv 1 (2 ^ j) = Inr (double_round (1 / 2 ^ j))"
    using no by (simp add: int_truediv_def Let_def)
  show ?thesis
  proof (cases "j \<le> 1074")
    case True
    then show ?thesis
      by (simp add: q float_sub_def double_round_inverse_power
          double_round_one_minus_inverse_power)
  next
    case False
    then show ?thesis
      by (simp add: q float_sub_def double_round_inverse_power double_round_one)
  qed
qed

lemma fprobability_value: "fprobability k = Inr (if k \<le> 53 then 1 - 1 / 2 ^ k else 1)"
  unfolding fprobability_def by (rule one_minus_inverse_power)

lemma mprobability_value: "mprobability k = Inr (if k \<le> 26 then 1 - 1 / 4 ^ k else 1)"
proof -
  have p: "(4::int) ^ k = 2 ^ (2 * k)" and r: "(4::real) ^ k = 2 ^ (2 * k)"
    by (simp_all add: power_mult)
  have "mprobability k = Inr (if 2 * k \<le> 53 then 1 - 1 / 2 ^ (2 * k) else 1)"
    unfolding mprobability_def p by (rule one_minus_inverse_power)
  also have "\<dots> = Inr (if k \<le> 26 then 1 - 1 / 4 ^ k else 1)"
    unfolding r by simp
  finally show ?thesis .
qed

section \<open>The probability estimates as doubles\<close>

text \<open>
  Claim C7, as the code has it. For every \<open>k \<ge> 1\<close> both functions return a double
  without raising. \<open>fprobability k\<close> is exactly \<open>1 - 2 ^ (-k)\<close>, in \<open>[0, 1)\<close>, for \<open>k \<le> 53\<close>,
  and exactly \<open>1.0\<close> for \<open>k \<ge> 54\<close>, where \<open>1 - 2 ^ (-k)\<close> is not a double and rounds up;
  \<open>mprobability k\<close> is exactly \<open>1 - 4 ^ (-k)\<close>, in \<open>[0, 1)\<close>, for \<open>k \<le> 26\<close>, and exactly
  \<open>1.0\<close> for \<open>k \<ge> 27\<close>.
\<close>

theorem probability_values:
  assumes "1 \<le> k"
  shows "\<exists>f m. fprobability k = Inr f \<and> mprobability k = Inr m
           \<and> (k \<le> 53 \<longrightarrow> f = 1 - 1 / 2 ^ k \<and> 0 \<le> f \<and> f < 1)
           \<and> (53 < k \<longrightarrow> f = 1)
           \<and> (k \<le> 26 \<longrightarrow> m = 1 - 1 / 4 ^ k \<and> 0 \<le> m \<and> m < 1)
           \<and> (26 < k \<longrightarrow> m = 1)"
proof -
  have "(1::real) / 2 ^ k \<le> 1" "(0::real) < 1 / 2 ^ k" "(1::real) / 4 ^ k \<le> 1" "(0::real) < 1 / 4 ^ k"
    by simp_all
  then show ?thesis
    by (simp add: fprobability_value mprobability_value)
qed

theorem probability_values_witness:
  "(1::nat) \<le> 3 \<and> fprobability 3 = Inr (7 / 8) \<and> mprobability 3 = Inr (63 / 64)"
  using probability_values [of 3] by auto

text \<open>
  Claim C7 as stated fails at \<open>k = 54\<close>: \<open>fprobability\<close> returns \<open>1.0\<close>, which is not
  \<open>1 - 2 ^ (-54)\<close> and not below \<open>1\<close>.
\<close>

theorem fprobability_54_counterexample:
  "fprobability 54 = Inr 1 \<and> (1::real) \<noteq> 1 - 1 / 2 ^ 54 \<and> \<not> (1::real) < 1"
  by (simp add: fprobability_def float_eval)

text \<open>
  Claim C8, as the code has it. For every \<open>k \<ge> 1\<close> the two functions are monotonically
  non-decreasing from \<open>k\<close> to \<open>k + 1\<close>, at most \<open>1\<close>, and \<open>mprobability k\<close> is at least
  \<open>fprobability k\<close>. The step from \<open>k\<close> to \<open>k + 1\<close> is a strict increase, and the value at
  \<open>k\<close> strictly below \<open>1\<close>, exactly when \<open>k \<le> 53\<close> for \<open>fprobability\<close> and exactly when
  \<open>k \<le> 26\<close> for \<open>mprobability\<close>.
\<close>

theorem probability_order:
  assumes "1 \<le> k"
  shows "\<exists>f f' m m'. fprobability k = Inr f \<and> fprobability (k + 1) = Inr f'
           \<and> mprobability k = Inr m \<and> mprobability (k + 1) = Inr m'
           \<and> f \<le> f' \<and> m \<le> m' \<and> f \<le> 1 \<and> m \<le> 1 \<and> f \<le> m
           \<and> (f < f' \<longleftrightarrow> k \<le> 53) \<and> (f < 1 \<longleftrightarrow> k \<le> 53)
           \<and> (m < m' \<longleftrightarrow> k \<le> 26) \<and> (m < 1 \<longleftrightarrow> k \<le> 26)"
proof -
  define f :: real where "f = (if k \<le> 53 then 1 - 1 / 2 ^ k else 1)"
  define f' :: real where "f' = (if k + 1 \<le> 53 then 1 - 1 / 2 ^ (k + 1) else 1)"
  define m :: real where "m = (if k \<le> 26 then 1 - 1 / 4 ^ k else 1)"
  define m' :: real where "m' = (if k + 1 \<le> 26 then 1 - 1 / 4 ^ (k + 1) else 1)"
  have vals: "fprobability k = Inr f" "fprobability (k + 1) = Inr f'"
    "mprobability k = Inr m" "mprobability (k + 1) = Inr m'"
    by (simp_all only: fprobability_value mprobability_value f_def f'_def m_def m'_def)
  have "(2::real) ^ k < 2 ^ (k + 1)" and "(4::real) ^ k < 4 ^ (k + 1)"
    by simp_all
  then have s: "(1::real) / 2 ^ (k + 1) < 1 / 2 ^ k" "(1::real) / 4 ^ (k + 1) < 1 / 4 ^ k"
    by (intro frac_less2; simp)+
  have p2: "(0::real) < 1 / 2 ^ k" "(1::real) / 2 ^ (k + 1) < 1 / 2 ^ k" "(0::real) < 1 / 2 ^ (k + 1)"
    using s by simp_all
  have p4: "(0::real) < 1 / 4 ^ k" "(1::real) / 4 ^ (k + 1) < 1 / 4 ^ k" "(0::real) < 1 / 4 ^ (k + 1)"
    using s by simp_all
  have "(2::real) ^ k \<le> 4 ^ k" by (intro power_mono) simp_all
  then have p24: "(1::real) / 4 ^ k \<le> 1 / 2 ^ k" by (intro frac_le) simp_all
  have a: "f \<le> f'" "f \<le> 1" "f < f' \<longleftrightarrow> k \<le> 53" "f < 1 \<longleftrightarrow> k \<le> 53"
    unfolding f_def f'_def using p2 by (auto split: if_splits)
  have b: "m \<le> m'" "m \<le> 1" "m < m' \<longleftrightarrow> k \<le> 26" "m < 1 \<longleftrightarrow> k \<le> 26"
    unfolding m_def m'_def using p4 by (auto split: if_splits)
  have c: "f \<le> m"
    unfolding f_def m_def using p24 p2 by (auto split: if_splits)
  from vals a b c show ?thesis by blast
qed

theorem probability_order_witness:
  "(1::nat) \<le> 3 \<and> fprobability 3 = Inr (7 / 8) \<and> fprobability (3 + 1) = Inr (15 / 16)
   \<and> mprobability 3 = Inr (63 / 64) \<and> mprobability (3 + 1) = Inr (255 / 256)"
proof -
  have v: "fprobability 3 = Inr (7 / 8)" "fprobability (3 + 1) = Inr (15 / 16)"
    "mprobability 3 = Inr (63 / 64)" "mprobability (3 + 1) = Inr (255 / 256)"
    by (simp_all add: fprobability_def mprobability_def float_eval)
  from probability_order [of 3] v show ?thesis by simp
qed

text \<open>
  Claim C8 as stated fails at \<open>k = 54\<close>: \<open>fprobability 54\<close> and \<open>fprobability 55\<close> are both
  \<open>1.0\<close>, so the step is not a strict increase and the value is not below \<open>1\<close>.
\<close>

theorem probability_plateau_counterexample:
  "fprobability 54 = Inr 1 \<and> fprobability (54 + 1) = Inr 1 \<and> \<not> (1::real) < 1"
  by (simp add: fprobability_def float_eval)

end
